theory Spec2Isabelle
  imports Main "HOL-Library.Sublist"
begin

section \<open>The external Version capability\<close>

text \<open>
  The constraint code works on \<open>semver.Version\<close> values of another module. Its
  operator functions only call methods of that type, so the embedding takes the methods
  as a parameter: a record of operations over an arbitrary carrier \<open>'v\<close>. Arguments of
  the \<open>part\<close> package handed to \<open>semver.New\<close> are kept as the constructor calls
  that make them.
\<close>

datatype Part = part_Any bool | part_NewPart string

datatype Parts = part_NewParts string

record 'v VersionOps =
  Equal :: "'v \<Rightarrow> 'v \<Rightarrow> bool"
  GreaterThan :: "'v \<Rightarrow> 'v \<Rightarrow> bool"
  LessThan :: "'v \<Rightarrow> 'v \<Rightarrow> bool"
  GreaterThanOrEqual :: "'v \<Rightarrow> 'v \<Rightarrow> bool"
  LessThanOrEqual :: "'v \<Rightarrow> 'v \<Rightarrow> bool"
  IsPreRelease :: "'v \<Rightarrow> bool"
  IsAny :: "'v \<Rightarrow> bool"
  Release :: "'v \<Rightarrow> 'v"
  TildeBump :: "'v \<Rightarrow> 'v"
  CaretBump :: "'v \<Rightarrow> 'v"
  New :: "Part \<Rightarrow> Part \<Rightarrow> Part \<Rightarrow> Parts \<Rightarrow> string \<Rightarrow> 'v"

section \<open>Configuration, comparator terms, range expressions\<close>

record conf =
  includePreRelease :: bool

text \<open>
  An \<open>operatorFunc\<close> is a Go function value; \<open>None\<close> is the nil function, which is
  what indexing the operator map with an absent key yields. Calling it panics, so
  evaluation returns \<open>bool option\<close> with \<open>None\<close> for that panic.
\<close>

type_synonym 'v operatorFunc = "('v \<Rightarrow> 'v \<Rightarrow> conf \<Rightarrow> bool) option"

record 'v constraint =
  version :: 'v
  operator :: "'v operatorFunc"
  original :: string

record 'v Constraints =
  constraints :: "'v constraint list list"
  conf :: conf

datatype ConstraintOption = WithPreRelease bool

fun apply_option :: "ConstraintOption \<Rightarrow> conf \<Rightarrow> conf" where
  "apply_option (WithPreRelease o') c = c\<lparr>includePreRelease := o'\<rparr>"

section \<open>Constraint functions\<close>

definition constraintEqual :: "'v VersionOps \<Rightarrow> 'v \<Rightarrow> 'v \<Rightarrow> conf \<Rightarrow> bool" where
  "constraintEqual V v c cfg = Equal V v c"

definition constraintGreaterThan :: "'v VersionOps \<Rightarrow> 'v \<Rightarrow> 'v \<Rightarrow> conf \<Rightarrow> bool" where
  "constraintGreaterThan V v c cfg =
     (if \<not> includePreRelease cfg \<and> (IsPreRelease V c \<and> IsPreRelease V v)
      then Equal V (Release V v) (Release V c) \<and> GreaterThan V v c
      else GreaterThan V v c)"

definition constraintLessThan :: "'v VersionOps \<Rightarrow> 'v \<Rightarrow> 'v \<Rightarrow> conf \<Rightarrow> bool" where
  "constraintLessThan V v c cfg =
     (if \<not> includePreRelease cfg \<and> (IsPreRelease V c \<and> IsPreRelease V v)
      then Equal V (Release V v) (Release V c) \<and> LessThan V v c
      else LessThan V v c)"

definition constraintGreaterThanEqual :: "'v VersionOps \<Rightarrow> 'v \<Rightarrow> 'v \<Rightarrow> conf \<Rightarrow> bool" where
  "constraintGreaterThanEqual V v c cfg =
     (if \<not> includePreRelease cfg \<and> (IsPreRelease V c \<and> IsPreRelease V v)
      then Equal V (Release V v) (Release V c) \<and> GreaterThanOrEqual V v c
      else GreaterThanOrEqual V v c)"

definition constraintLessThanEqual :: "'v VersionOps \<Rightarrow> 'v \<Rightarrow> 'v \<Rightarrow> conf \<Rightarrow> bool" where
  "constraintLessThanEqual V v c cfg =
     (if \<not> includePreRelease cfg \<and> (IsPreRelease V c \<and> IsPreRelease V v)
      then Equal V (Release V v) (Release V c) \<and> LessThanOrEqual V v c
      else LessThanOrEqual V v c)"

definition constraintTilde :: "'v VersionOps \<Rightarrow> 'v \<Rightarrow> 'v \<Rightarrow> conf \<Rightarrow> bool" where
  "constraintTilde V v c cfg =
     (if \<not> includePreRelease cfg \<and> (IsPreRelease V c \<and> IsPreRelease V v)
      then GreaterThanOrEqual V v c \<and> LessThan V v (Release V c)
      else GreaterThanOrEqual V v c \<and> LessThan V v (TildeBump V c))"

definition constraintCaret :: "'v VersionOps \<Rightarrow> 'v \<Rightarrow> 'v \<Rightarrow> conf \<Rightarrow> bool" where
  "constraintCaret V v c cfg =
     (if \<not> includePreRelease cfg \<and> (IsPreRelease V c \<and> IsPreRelease V v)
      then GreaterThanOrEqual V v c \<and> LessThan V v (Release V c)
      else GreaterThanOrEqual V v c \<and> LessThan V v (CaretBump V c))"

text \<open>The operator table, in the order of the map literal.\<close>

definition constraintOperators ::
  "'v VersionOps \<Rightarrow> (string \<times> ('v \<Rightarrow> 'v \<Rightarrow> conf \<Rightarrow> bool)) list" where
  "constraintOperators V =
     [('''', constraintEqual V),
      (''='', constraintEqual V),
      (''=='', constraintEqual V),
      (''>'', constraintGreaterThan V),
      (''<'', constraintLessThan V),
      (''>='', constraintGreaterThanEqual V),
      (''=>'', constraintGreaterThanEqual V),
      (''<='', constraintLessThanEqual V),
      (''=<'', constraintLessThanEqual V),
      (''~'', constraintTilde V),
      (''^'', constraintCaret V)]"

text \<open>\<open>constraintOperators[k]\<close>: the function stored under \<open>k\<close>, nil when absent.\<close>

definition operatorAt :: "'v VersionOps \<Rightarrow> string \<Rightarrow> 'v operatorFunc" where
  "operatorAt V k = map_of (constraintOperators V) k"

section \<open>The pre-release gate and evaluation\<close>

definition preCheck :: "'v VersionOps \<Rightarrow> 'v operatorFunc \<Rightarrow> 'v \<Rightarrow> 'v \<Rightarrow> conf \<Rightarrow> bool option" where
  "preCheck V f v c cfg =
     (if \<not> includePreRelease cfg \<and> (IsPreRelease V v \<and> \<not> IsPreRelease V c) then Some False
      else if IsPreRelease V c \<and> IsAny V c then Some False
      else (case f of None \<Rightarrow> None | Some g \<Rightarrow> Some (g v c cfg)))"

definition check :: "'v VersionOps \<Rightarrow> 'v constraint \<Rightarrow> 'v \<Rightarrow> conf \<Rightarrow> bool option" where
  "check V c v cfg = preCheck V (operator c) v (version c) cfg"

fun andCheck :: "'v VersionOps \<Rightarrow> 'v \<Rightarrow> 'v constraint list \<Rightarrow> conf \<Rightarrow> bool option" where
  "andCheck V v [] cfg = Some True"
| "andCheck V v (c # cs) cfg =
     (case check V c v cfg of
        None \<Rightarrow> None
      | Some b \<Rightarrow> if \<not> b then Some False else andCheck V v cs cfg)"

fun Check_loop :: "'v VersionOps \<Rightarrow> 'v constraint list list \<Rightarrow> conf \<Rightarrow> 'v \<Rightarrow> bool option" where
  "Check_loop V [] cfg v = Some False"
| "Check_loop V (c # cs) cfg v =
     (case andCheck V v c cfg of
        None \<Rightarrow> None
      | Some b \<Rightarrow> if b then Some True else Check_loop V cs cfg v)"

definition Check :: "'v VersionOps \<Rightarrow> 'v Constraints \<Rightarrow> 'v \<Rightarrow> bool option" where
  "Check V cs v = Check_loop V (constraints cs) (conf cs) v"

section \<open>Regular expressions\<close>

text \<open>
  The patterns of the source are kept as terms that read like the pattern text. Matching
  is the backtracking search whose first result Go's \<open>regexp\<close> package returns
  (leftmost-first): \<open>ms r s\<close> lists, in the order of that search, every way for
  \<open>r\<close> to match a prefix of \<open>s\<close>, as the submatches set on the way (latest first)
  and the text left over. All literals and classes of the patterns are ASCII, so
  matching bytes and matching code points agree. An iteration of a star has to consume
  something; no starred sub-pattern here matches the empty string.
\<close>

datatype regex =
    Lit string
  | Cls string
  | Seq regex regex
  | Alt regex regex
  | Star regex
  | Grp nat regex

type_synonym caps = "(nat \<times> string) list"

fun ms :: "regex \<Rightarrow> string \<Rightarrow> (caps \<times> string) list" where
  "ms (Lit l) s = (if prefix l s then [([], drop (length l) s)] else [])"
| "ms (Cls cs) s = (case s of [] \<Rightarrow> [] | c # t \<Rightarrow> if c \<in> set cs then [([], t)] else [])"
| "ms (Seq a b) s =
     concat (map (\<lambda>(c1, r1). map (\<lambda>(c2, r2). (c2 @ c1, r2)) (ms b r1)) (ms a s))"
| "ms (Alt a b) s = ms a s @ ms b s"
| "ms (Star a) s =
     concat (map (\<lambda>(c1, r1). if length r1 < length s
                              then map (\<lambda>(c2, r2). (c2 @ c1, r2)) (ms (Star a) r1)
                              else []) (ms a s))
     @ [([], s)]"
| "ms (Grp n a) s = map (\<lambda>(c, r). ((n, take (length s - length r) s) # c, r)) (ms a s)"

text \<open>\<open>r+\<close> and the greedy \<open>r?\<close>.\<close>

definition Plus :: "regex \<Rightarrow> regex" where
  "Plus r = Seq r (Star r)"

definition Opt :: "regex \<Rightarrow> regex" where
  "Opt r = Alt r (Lit [])"

text \<open>\<open>strings.Join(ops, "|")\<close> as a pattern: the alternatives in the order of the list.\<close>

fun alts :: "regex list \<Rightarrow> regex" where
  "alts [] = Lit []"
| "alts [r] = r"
| "alts (r # rs) = Alt r (alts rs)"

text \<open>\<open>MatchString\<close> of a pattern anchored by \<open>^\<close> and \<open>$\<close>: the whole text matches.\<close>

definition MatchString :: "regex \<Rightarrow> string \<Rightarrow> bool" where
  "MatchString r s = ([] \<in> snd ` set (ms r s))"

text \<open>
  The leftmost match: the first result of the search at the first position that has one,
  as submatches, matched text and the text after it.
\<close>

fun findFirst :: "regex \<Rightarrow> string \<Rightarrow> (caps \<times> string \<times> string) option" where
  "findFirst r s =
     (case ms r s of
        (c, rem) # _ \<Rightarrow> Some (c, take (length s - length rem) s, rem)
      | [] \<Rightarrow> (case s of [] \<Rightarrow> None | _ # t \<Rightarrow> findFirst r t))"

definition group :: "caps \<Rightarrow> nat \<Rightarrow> string" where
  "group c n = (case map_of c n of None \<Rightarrow> [] | Some t \<Rightarrow> t)"

text \<open>\<open>FindStringSubmatch\<close> for a pattern of \<open>n\<close> groups: \<open>m[0]\<close>, ..., \<open>m[n]\<close>, or nil.\<close>

definition FindStringSubmatch :: "regex \<Rightarrow> nat \<Rightarrow> string \<Rightarrow> string list option" where
  "FindStringSubmatch r n s =
     (case findFirst r s of
        None \<Rightarrow> None
      | Some (c, text, rem) \<Rightarrow> Some (text # map (group c) [1..<Suc n]))"

text \<open>
  \<open>FindAllString(s, -1)\<close>: the successive leftmost matches, each search starting where
  the last match ended (one character on after an empty match).
\<close>

fun FindAllString :: "regex \<Rightarrow> string \<Rightarrow> string list" where
  "FindAllString r s =
     (case findFirst r s of
        None \<Rightarrow> []
      | Some (c, text, rem) \<Rightarrow>
          if length rem < length s then text # FindAllString r rem
          else text # (case s of [] \<Rightarrow> [] | _ # t \<Rightarrow> FindAllString r t))"

subsection \<open>The grammar\<close>

text \<open>\<open>\s\<close> is \<open>[\t\n\f\r ]\<close>.\<close>

definition space :: regex where
  "space = Cls [CHR 0x09, CHR 0x0A, CHR 0x0C, CHR 0x0D, CHR 0x20]"

text \<open>\<open>[0-9|x|X|\*]+\<close>\<close>

definition component :: regex where
  "component = Plus (Cls ''0123456789|x|X|*'')"

text \<open>\<open>(?:[0-9A-Za-z-]+\.)*[0-9A-Za-z-]+\<close>\<close>

definition identifiers :: regex where
  "identifiers =
     (let ident = Plus (Cls ''0123456789ABCDEFGHIJKLMNOPQRSTUVWXYZabcdefghijklmnopqrstuvwxyz-'')
      in Seq (Star (Seq ident (Lit ''.''))) ident)"

text \<open>\<open>cvRegex\<close>, its five groups numbered from \<open>k\<close>.\<close>

definition cvRegex :: "nat \<Rightarrow> regex" where
  "cvRegex k =
     Seq (Opt (Lit ''v''))
    (Seq (Grp k component)
    (Seq (Opt (Seq (Lit ''.'') (Grp (k + 1) component)))
    (Seq (Opt (Seq (Lit ''.'') (Grp (k + 2) component)))
    (Seq (Opt (Seq (Lit ''-'') (Grp (k + 3) identifiers)))
         (Opt (Seq (Lit ''+'') (Grp (k + 4) identifiers)))))))"

text \<open>
  \<open>init\<close> builds both patterns from the keys of the operator map in the order the map
  is iterated, which Go leaves open: \<open>ops\<close> is that order.
\<close>

definition constraintRegexp :: "string list \<Rightarrow> regex" where
  "constraintRegexp ops =
     Seq (Grp 1 (alts (map Lit ops))) (Seq (Star space) (Grp 2 (cvRegex 3)))"

definition validConstraintRegexp :: "string list \<Rightarrow> regex" where
  "validConstraintRegexp ops =
     Seq (Star space)
    (Seq (Star (Grp 1
       (Seq (Star space)
       (Seq (Grp 2 (alts (map Lit ops)))
       (Seq (Star space)
       (Seq (Grp 3 (cvRegex 4))
       (Seq (Star space) (Opt (Lit '','')))))))))
         (Star space))"

text \<open>The part of \<open>constraintRegexp\<close> after the operator: \<open>\s*(cvRegex)\<close>.\<close>

definition versionPart :: regex where
  "versionPart = Seq (Star space) (Grp 2 (cvRegex 3))"

text \<open>The keys of the operator map, in the order of the map literal.\<close>

definition operatorKeys :: "string list" where
  "operatorKeys = ['''', ''='', ''=='', ''>'', ''<'', ''>='', ''=>'', ''<='', ''=<'', ''~'', ''^'']"

section \<open>String helpers\<close>

text \<open>\<open>strings.Split(s, sep)\<close> for a non-empty separator.\<close>

fun Split_from :: "string \<Rightarrow> string \<Rightarrow> string \<Rightarrow> string list" where
  "Split_from sep acc [] = [acc]"
| "Split_from sep acc (c # t) =
     (if sep \<noteq> [] \<and> prefix sep (c # t)
      then acc # Split_from sep [] (drop (length sep) (c # t))
      else Split_from sep (acc @ [c]) t)"

definition Split :: "string \<Rightarrow> string \<Rightarrow> string list" where
  "Split s sep = Split_from sep [] s"

fun Join :: "string list \<Rightarrow> string \<Rightarrow> string" where
  "Join [] sep = []"
| "Join [x] sep = x"
| "Join (x # xs) sep = x @ sep @ Join xs sep"

definition TrimPrefix :: "string \<Rightarrow> string \<Rightarrow> string" where
  "TrimPrefix s p = (if prefix p s then drop (length p) s else s)"

text \<open>
  \<open>strings.TrimSpace\<close> on the ASCII white space. It is only reached by a segment that the
  validator accepted and that holds no token, which is made of \<open>\s\<close> characters alone.
\<close>

definition isSpace :: "char \<Rightarrow> bool" where
  "isSpace c = (c \<in> set [CHR 0x09, CHR 0x0A, CHR 0x0B, CHR 0x0C, CHR 0x0D, CHR 0x20])"

definition TrimSpace :: "string \<Rightarrow> string" where
  "TrimSpace s = rev (dropWhile isSpace (rev (dropWhile isSpace s)))"

section \<open>Parsing a range expression\<close>

type_synonym error = string

definition newPart :: "string \<Rightarrow> Part" where
  "newPart p = part_NewPart (if p = [] then ''*'' else p)"

definition newConstraint :: "'v VersionOps \<Rightarrow> string list \<Rightarrow> string \<Rightarrow> error + 'v constraint" where
  "newConstraint V ops c =
     (if c = [] then
        Inr \<lparr>version = New V (part_Any True) (part_Any True) (part_Any True)
                          (part_NewParts ''*'') [],
             operator = operatorAt V [],
             original = []\<rparr>
      else
        (case FindStringSubmatch (constraintRegexp ops) 7 c of
           None \<Rightarrow> Inl (''improper constraint: '' @ c)
         | Some m \<Rightarrow>
             (let major = m ! 3;
                  minor = TrimPrefix (m ! 4) ''.'';
                  patch = TrimPrefix (m ! 5) ''.'';
                  pre = part_NewParts (TrimPrefix (m ! 6) ''-'');
                  v = New V (newPart major) (newPart minor) (newPart patch) pre []
              in Inr \<lparr>version = v, operator = operatorAt V (m ! 1), original = c\<rparr>)))"

text \<open>The inner loop of \<open>NewConstraints\<close>: the terms of one segment, or the first error.\<close>

fun newConstraints_each ::
  "'v VersionOps \<Rightarrow> string list \<Rightarrow> string list \<Rightarrow> error + 'v constraint list" where
  "newConstraints_each V ops [] = Inr []"
| "newConstraints_each V ops (single # ss) =
     (case newConstraint V ops single of
        Inl err \<Rightarrow> Inl err
      | Inr c \<Rightarrow>
          (case newConstraints_each V ops ss of
             Inl err \<Rightarrow> Inl err
           | Inr cs \<Rightarrow> Inr (c # cs)))"

text \<open>The body of the outer loop for one segment \<open>vv\<close>.\<close>

definition parseSegment ::
  "'v VersionOps \<Rightarrow> string list \<Rightarrow> string \<Rightarrow> error + 'v constraint list" where
  "parseSegment V ops vv =
     (if \<not> MatchString (validConstraintRegexp ops) vv
      then Inl (''improper constraint: '' @ vv)
      else
        (let ss = FindAllString (constraintRegexp ops) vv;
             ss = (if ss = [] then ss @ [TrimSpace vv] else ss)
         in newConstraints_each V ops ss))"

fun parseSegments ::
  "'v VersionOps \<Rightarrow> string list \<Rightarrow> string list \<Rightarrow> error + 'v constraint list list" where
  "parseSegments V ops [] = Inr []"
| "parseSegments V ops (vv # vvs) =
     (case parseSegment V ops vv of
        Inl err \<Rightarrow> Inl err
      | Inr cs \<Rightarrow>
          (case parseSegments V ops vvs of
             Inl err \<Rightarrow> Inl err
           | Inr css \<Rightarrow> Inr (cs # css)))"

text \<open>
  \<open>NewConstraints\<close> returns the pair Go returns: the range expression and the error,
  \<open>None\<close> for nil. With an error the range expression is the zero value
  \<open>Constraints{}\<close>.
\<close>

definition zeroConstraints :: "'v Constraints" where
  "zeroConstraints = \<lparr>constraints = [], conf = \<lparr>includePreRelease = False\<rparr>\<rparr>"

text \<open>The loop over the options: each is applied to a fresh \<open>conf\<close>.\<close>

definition applyOptions :: "ConstraintOption list \<Rightarrow> conf" where
  "applyOptions opts = foldl (\<lambda>c o'. apply_option o' c) \<lparr>includePreRelease = False\<rparr> opts"

definition NewConstraints ::
  "'v VersionOps \<Rightarrow> string list \<Rightarrow> string \<Rightarrow> ConstraintOption list
     \<Rightarrow> 'v Constraints \<times> error option" where
  "NewConstraints V ops v opts =
     (let config = applyOptions opts
      in case parseSegments V ops (Split v ''||'') of
           Inl err \<Rightarrow> (zeroConstraints, Some err)
         | Inr css \<Rightarrow> (\<lparr>constraints = css, conf = config\<rparr>, None))"

text \<open>\<open>Constraints.String\<close>\<close>

definition String :: "'v Constraints \<Rightarrow> string" where
  "String cs = Join (map (\<lambda>orC. Join (map original orC) '','') (constraints cs)) ''||''"

section \<open>The language of a pattern\<close>

text \<open>The texts a pattern matches, as a set: what the search is looking for.\<close>

inductive_set star :: "string set \<Rightarrow> string set" for A :: "string set" where
  star_empty: "[] \<in> star A"
| star_step: "u \<in> A \<Longrightarrow> v \<in> star A \<Longrightarrow> u @ v \<in> star A"

fun lang :: "regex \<Rightarrow> string set" where
  "lang (Lit l) = {l}"
| "lang (Cls cs) = {[c] | c. c \<in> set cs}"
| "lang (Seq a b) = {u @ v | u v. u \<in> lang a \<and> v \<in> lang b}"
| "lang (Alt a b) = lang a \<union> lang b"
| "lang (Star a) = star (lang a)"
| "lang (Grp n a) = lang a"

section \<open>A reference Version\<close>

text \<open>
  Modelled from the spec: the Version value of the external semver module, which is not
  part of this repository (spec sections 3, 4.4 and 6). A component is a number or the
  wildcard; a pre-release is a sequence of identifiers; a wildcard major makes the
  universal version, which compares equal to every version; a version without
  pre-release is above its pre-releases; the tilde and caret bumps follow section 4.4, an
  infinite major standing for the boundary of a wildcard major. The theorems below hold
  for every \<open>VersionOps\<close>; this instance is what they are evaluated on at concrete
  versions.
\<close>

datatype component = Wildcard | Concrete nat | Text string | Infinite

record semver =
  major :: component
  minor :: component
  patch :: component
  preRelease :: "component list"

fun digits_value :: "nat \<Rightarrow> string \<Rightarrow> nat option" where
  "digits_value n [] = Some n"
| "digits_value n (c # cs) =
     (if c \<in> set ''0123456789'' then digits_value (10 * n + (of_char c - 48)) cs else None)"

definition sem_part :: "string \<Rightarrow> component" where
  "sem_part s =
     (if s \<in> set [''*'', ''x'', ''X''] then Wildcard
      else if s = [] then Text []
      else (case digits_value 0 s of Some n \<Rightarrow> Concrete n | None \<Rightarrow> Text s))"

fun sem_Part :: "Part \<Rightarrow> component" where
  "sem_Part (part_Any b) = Wildcard"
| "sem_Part (part_NewPart s) = sem_part s"

fun sem_Parts :: "Parts \<Rightarrow> component list" where
  "sem_Parts (part_NewParts s) = (if s = [] then [] else map sem_part (Split s ''.''))"

fun text_less :: "string \<Rightarrow> string \<Rightarrow> bool" where
  "text_less _ [] = False"
| "text_less [] (y # ys) = True"
| "text_less (x # xs) (y # ys) =
     ((of_char x :: nat) < of_char y \<or> (x = y \<and> text_less xs ys))"

text \<open>The three-way order as a number: 0 for below, 1 for equal, 2 for above.\<close>

fun component_compare :: "component \<Rightarrow> component \<Rightarrow> nat" where
  "component_compare Wildcard _ = 1"
| "component_compare _ Wildcard = 1"
| "component_compare Infinite Infinite = 1"
| "component_compare Infinite _ = 2"
| "component_compare _ Infinite = 0"
| "component_compare (Concrete a) (Concrete b) = (if a < b then 0 else if a = b then 1 else 2)"
| "component_compare (Concrete a) (Text t) = 0"
| "component_compare (Text t) (Concrete b) = 2"
| "component_compare (Text s) (Text t) = (if text_less s t then 0 else if s = t then 1 else 2)"

fun components_compare :: "component list \<Rightarrow> component list \<Rightarrow> nat" where
  "components_compare [] [] = 1"
| "components_compare [] (y # ys) = 0"
| "components_compare (x # xs) [] = 2"
| "components_compare (x # xs) (y # ys) =
     (let r = component_compare x y in if r = 1 then components_compare xs ys else r)"

definition isNull :: "component list \<Rightarrow> bool" where
  "isNull ps = (ps = [] \<or> Wildcard \<in> set ps)"

definition sem_Compare :: "semver \<Rightarrow> semver \<Rightarrow> nat" where
  "sem_Compare v w =
     (if major v = Wildcard \<or> major w = Wildcard then 1
      else let r = components_compare [major v, minor v, patch v] [major w, minor w, patch w]
           in if r \<noteq> 1 then r
              else if isNull (preRelease v) \<and> isNull (preRelease w) then 1
              else if isNull (preRelease v) then 2
              else if isNull (preRelease w) then 0
              else components_compare (preRelease v) (preRelease w))"

definition release_version :: "component \<Rightarrow> component \<Rightarrow> component \<Rightarrow> semver" where
  "release_version a b c = \<lparr>major = a, minor = b, patch = c, preRelease = []\<rparr>"

definition sem_TildeBump :: "semver \<Rightarrow> semver" where
  "sem_TildeBump v =
     (case major v of
        Concrete M \<Rightarrow>
          (case minor v of
             Concrete m \<Rightarrow> release_version (Concrete M) (Concrete (m + 1)) (Concrete 0)
           | _ \<Rightarrow> release_version (Concrete (M + 1)) (Concrete 0) (Concrete 0))
      | _ \<Rightarrow> release_version Infinite (Concrete 0) (Concrete 0))"

definition sem_CaretBump :: "semver \<Rightarrow> semver" where
  "sem_CaretBump v =
     (case major v of
        Concrete M \<Rightarrow>
          (if 0 < M then release_version (Concrete (M + 1)) (Concrete 0) (Concrete 0)
           else (case minor v of
                   Concrete m \<Rightarrow>
                     (if 0 < m then release_version (Concrete 0) (Concrete (m + 1)) (Concrete 0)
                      else (case patch v of
                              Concrete p \<Rightarrow>
                                release_version (Concrete 0) (Concrete 0) (Concrete (p + 1))
                            | _ \<Rightarrow> release_version (Concrete 0) (Concrete 1) (Concrete 0)))
                 | _ \<Rightarrow> release_version (Concrete 1) (Concrete 0) (Concrete 0)))
      | _ \<Rightarrow> release_version Infinite (Concrete 0) (Concrete 0))"

definition semverOps :: "semver VersionOps" where
  "semverOps =
     \<lparr>Equal = (\<lambda>v w. sem_Compare v w = 1),
      GreaterThan = (\<lambda>v w. sem_Compare v w = 2),
      LessThan = (\<lambda>v w. sem_Compare v w = 0),
      GreaterThanOrEqual = (\<lambda>v w. sem_Compare v w \<noteq> 0),
      LessThanOrEqual = (\<lambda>v w. sem_Compare v w \<noteq> 2),
      IsPreRelease = (\<lambda>v. \<not> isNull (preRelease v)),
      IsAny = (\<lambda>v. major v = Wildcard),
      Release = (\<lambda>v. v\<lparr>preRelease := []\<rparr>),
      TildeBump = sem_TildeBump,
      CaretBump = sem_CaretBump,
      New = (\<lambda>ma mi pa pre build.
               \<lparr>major = sem_Part ma, minor = sem_Part mi, patch = sem_Part pa,
                preRelease = sem_Parts pre\<rparr>)\<rparr>"

text \<open>The version \<open>a.b.c\<close>, and \<open>a.b.c-pre\<close>.\<close>

definition sv :: "nat \<Rightarrow> nat \<Rightarrow> nat \<Rightarrow> string list \<Rightarrow> semver" where
  "sv a b c pre =
     \<lparr>major = Concrete a, minor = Concrete b, patch = Concrete c, preRelease = map sem_part pre\<rparr>"

section \<open>Matching and the language of a pattern\<close>

declare ms.simps(5) [simp del]

lemma ms_Star:
  "ms (Star a) s =
     concat (map (\<lambda>(c1, r1). if length r1 < length s
                              then map (\<lambda>(c2, r2). (c2 @ c1, r2)) (ms (Star a) r1)
                              else []) (ms a s))
     @ [([], s)]"
  by (rule ms.simps)

lemma ms_sound: "(c, r) \<in> set (ms rx s) \<Longrightarrow> \<exists>p\<in>lang rx. s = p @ r"
proof (induction rx s arbitrary: c r rule: ms.induct)
  case (1 l s)
  then show ?case by (auto simp: prefix_def split: if_splits)
next
  case (2 cs s)
  then show ?case by (auto split: list.splits if_splits)
next
  case (3 a b s)
  from "3.prems" obtain c1 r1 c2 where
    a: "(c1, r1) \<in> set (ms a s)" and b: "(c2, r) \<in> set (ms b r1)"
    by auto
  from "3.IH"(1) [OF a] obtain p1 where p1: "p1 \<in> lang a" "s = p1 @ r1" by blast
  from "3.IH"(2) [OF a refl b] obtain p2 where p2: "p2 \<in> lang b" "r1 = p2 @ r" by blast
  have mem: "p1 @ p2 \<in> lang (Seq a b)" using p1(1) p2(1) by auto
  have eq: "s = (p1 @ p2) @ r" using p1(2) p2(2) by simp
  show ?case using mem eq by (rule bexI [rotated])
next
  case (4 a b s)
  from "4.prems" have "(c, r) \<in> set (ms a s) \<or> (c, r) \<in> set (ms b s)" by simp
  then show ?case
  proof
    assume "(c, r) \<in> set (ms a s)"
    from "4.IH"(1) [OF this] show ?thesis by auto
  next
    assume "(c, r) \<in> set (ms b s)"
    from "4.IH"(2) [OF this] show ?thesis by auto
  qed
next
  case (5 a s)
  show ?case
  proof (cases "(c, r) = ([], s)")
    case True
    then show ?thesis by (auto intro: star_empty)
  next
    case False
    with "5.prems" obtain c1 r1 c2 where
      a: "(c1, r1) \<in> set (ms a s)" and len: "length r1 < length s"
      and b: "(c2, r) \<in> set (ms (Star a) r1)"
      by (subst (asm) ms_Star) (auto split: if_splits)
    from "5.IH"(1) [OF a] obtain p1 where p1: "p1 \<in> lang a" "s = p1 @ r1" by blast
    from "5.IH"(2) [OF a refl len b] obtain p2 where p2: "p2 \<in> lang (Star a)" "r1 = p2 @ r"
      by blast
    have mem: "p1 @ p2 \<in> lang (Star a)" using p1(1) p2(1) by (auto intro: star_step)
    have eq: "s = (p1 @ p2) @ r" using p1(2) p2(2) by simp
    show ?thesis using mem eq by (rule bexI [rotated])
  qed
next
  case (6 n a s)
  then show ?case by auto
qed

lemma star_complete:
  assumes "p \<in> star A"
    and "\<And>u t. u \<in> A \<Longrightarrow> \<exists>c. (c, t) \<in> set (ms a (u @ t))"
  shows "\<exists>c. (c, t) \<in> set (ms (Star a) (p @ t))"
  using assms(1)
proof (induction rule: star.induct)
  case star_empty
  show ?case by (subst ms_Star) auto
next
  case (star_step u v)
  show ?case
  proof (cases "u = []")
    case True
    with star_step.IH show ?thesis by simp
  next
    case False
    from assms(2) [OF star_step.hyps(1)] obtain c1 where
      c1: "(c1, v @ t) \<in> set (ms a (u @ v @ t))" by blast
    from star_step.IH obtain c2 where c2: "(c2, t) \<in> set (ms (Star a) (v @ t))" by blast
    from False have len: "length (v @ t) < length ((u @ v) @ t)" by simp
    have "(c2 @ c1, t) \<in> set (ms (Star a) ((u @ v) @ t))"
      using c1 c2 len by (subst ms_Star) force
    then show ?thesis by blast
  qed
qed

lemma ms_complete: "p \<in> lang rx \<Longrightarrow> \<exists>c. (c, t) \<in> set (ms rx (p @ t))"
proof (induction rx arbitrary: p t)
  case (Lit l)
  then show ?case by simp
next
  case (Cls cs)
  then show ?case by auto
next
  case (Seq a b)
  from Seq.prems obtain u v where uv: "p = u @ v" "u \<in> lang a" "v \<in> lang b" by auto
  from Seq.IH(1) [OF uv(2)] obtain c1 where c1: "(c1, v @ t) \<in> set (ms a (u @ v @ t))" by blast
  from Seq.IH(2) [OF uv(3)] obtain c2 where c2: "(c2, t) \<in> set (ms b (v @ t))" by blast
  from c1 c2 uv(1) have "(c2 @ c1, t) \<in> set (ms (Seq a b) (p @ t))" by force
  then show ?case by blast
next
  case (Alt a b)
  then show ?case by fastforce
next
  case (Star a)
  from Star.prems have "p \<in> star (lang a)" by simp
  then show ?case using Star.IH by (rule star_complete)
next
  case (Grp n a)
  from Grp.IH [OF Grp.prems [simplified]] obtain c where "(c, t) \<in> set (ms a (p @ t))" by blast
  then show ?case by force
qed

lemma MatchString_lang: "MatchString r s \<longleftrightarrow> s \<in> lang r"
proof
  assume "MatchString r s"
  then obtain c where "(c, []) \<in> set (ms r s)" by (auto simp: MatchString_def)
  from ms_sound [OF this] show "s \<in> lang r" by simp
next
  assume "s \<in> lang r"
  from ms_complete [OF this, of "[]"] show "MatchString r s"
    by (force simp: MatchString_def)
qed

declare findFirst.simps [simp del]
declare FindAllString.simps [simp del]

lemma ms_length: "(c, r) \<in> set (ms rx s) \<Longrightarrow> length r \<le> length s"
  using ms_sound [of c r rx s] by auto

lemma ms_Star_Cls_no: "c \<notin> set cs \<Longrightarrow> ms (Star (Cls cs)) (c # t) = [([], c # t)]"
  by (subst ms_Star) simp

lemma ms_Star_Nil: "ms (Star a) [] = [([], [])]"
  by (subst ms_Star) (simp add: case_prod_unfold)

lemma concat_map_empty: "(\<And>x. x \<in> set xs \<Longrightarrow> g x = []) \<Longrightarrow> concat (map g xs) = []"
  by (induction xs) auto

lemma concat_map_single:
  "distinct xs \<Longrightarrow> a \<in> set xs \<Longrightarrow> (\<And>b. b \<in> set xs \<Longrightarrow> b \<noteq> a \<Longrightarrow> g b = []) \<Longrightarrow>
   concat (map g xs) = g a"
proof (induction xs)
  case Nil
  then show ?case by simp
next
  case (Cons x xs)
  show ?case
  proof (cases "x = a")
    case True
    with Cons.prems have "\<And>b. b \<in> set xs \<Longrightarrow> g b = []" by auto
    then have "concat (map g xs) = []" by (rule concat_map_empty)
    with True show ?thesis by simp
  next
    case False
    with Cons.prems have gx: "g x = []" by auto
    from False Cons.prems have "concat (map g xs) = g a"
      by (intro Cons.IH) auto
    with gx show ?thesis by simp
  qed
qed

lemma concat_map_filter:
  "concat (map f (filter P xs)) = concat (map (\<lambda>x. if P x then f x else []) xs)"
  by (induction xs) auto

lemma ms_alts_Lit:
  "ops \<noteq> [] \<Longrightarrow>
   ms (alts (map Lit ops)) s = map (\<lambda>op. ([], drop (length op) s)) (filter (\<lambda>op. prefix op s) ops)"
proof (induction ops)
  case Nil
  then show ?case by simp
next
  case (Cons a ops)
  show ?case
  proof (cases ops)
    case Nil
    then show ?thesis by simp
  next
    case (Cons b ops')
    with Cons.IH show ?thesis by simp
  qed
qed

lemma lang_alts_Lit: "ops \<noteq> [] \<Longrightarrow> lang (alts (map Lit ops)) = set ops"
proof (induction ops)
  case Nil
  then show ?case by simp
next
  case (Cons a ops)
  show ?case
  proof (cases ops)
    case Nil
    then show ?thesis by simp
  next
    case (Cons b ops')
    with Cons.IH show ?thesis by auto
  qed
qed

lemma take_prefix_drop: "prefix op s \<Longrightarrow> take (length s - (length s - length op)) s = op"
  by (auto simp: prefix_def)

lemma ms_constraintRegexp:
  assumes "ops \<noteq> []"
  shows "ms (constraintRegexp ops) s =
     concat (map (\<lambda>op. if prefix op s
                        then map (\<lambda>(c2, r2). (c2 @ [(1, op)], r2)) (ms versionPart (drop (length op) s))
                        else []) ops)"
proof -
  let ?f = "\<lambda>op. map (\<lambda>(c2, r2). (c2 @ [(1, take (length s - length (drop (length op) s)) s)], r2))
                    (ms versionPart (drop (length op) s))"
  let ?g = "\<lambda>op. map (\<lambda>(c2, r2). (c2 @ [(1, op)], r2)) (ms versionPart (drop (length op) s))"
  have "ms (constraintRegexp ops) s = concat (map ?f (filter (\<lambda>op. prefix op s) ops))"
    unfolding constraintRegexp_def versionPart_def [symmetric]
    by (simp add: ms_alts_Lit [OF assms] comp_def case_prod_unfold)
  also have "map ?f (filter (\<lambda>op. prefix op s) ops) = map ?g (filter (\<lambda>op. prefix op s) ops)"
    by (rule map_cong) (auto simp: take_prefix_drop)
  finally have "ms (constraintRegexp ops) s = concat (map ?g (filter (\<lambda>op. prefix op s) ops))" .
  then show ?thesis by (simp only: concat_map_filter)
qed


lemma versionPart_Nil: "ms versionPart [] = []"
  by (simp add: versionPart_def ms_Star_Nil cvRegex_def Opt_def component_def Plus_def)

lemma versionPart_opchar:
  assumes "c \<in> set ''=<>~^''"
  shows "ms versionPart (c # t) = []"
proof -
  from assms have sp: "c \<notin> set [CHR 0x09, CHR 0x0A, CHR 0x0C, CHR 0x0D, CHR 0x20]"
    by auto
  from assms have v: "c \<noteq> CHR ''v''" and cl: "c \<notin> set ''0123456789|x|X|*''"
    by auto
  show ?thesis
    using v cl
    by (simp add: versionPart_def space_def ms_Star_Cls_no [OF sp] cvRegex_def Opt_def
        component_def Plus_def)
qed

lemma operatorKeys_chars: "op \<in> set operatorKeys \<Longrightarrow> set op \<subseteq> set ''=<>~^''"
  by (auto simp: operatorKeys_def)

lemma versionPart_after_longer:
  assumes "op' \<in> set operatorKeys" and "prefix op s" and "prefix op' s"
    and "length op < length op'"
  shows "ms versionPart (drop (length op) s) = []"
proof -
  from assms(3) obtain z where s: "s = op' @ z" by (auto simp: prefix_def)
  from assms(2,3) have "prefix op op' \<or> prefix op' op" by (rule prefix_same_cases)
  with assms(4) have "prefix op op'"
    using prefix_length_le [of op' op] by auto
  then obtain y where op': "op' = op @ y" by (auto simp: prefix_def)
  with assms(4) obtain c ys where y: "y = c # ys" by (cases y) auto
  from operatorKeys_chars [OF assms(1)] op' y have "c \<in> set ''=<>~^''" by auto
  moreover from s op' y have "drop (length op) s = c # ys @ z" by simp
  ultimately show ?thesis by (simp only: versionPart_opchar)
qed

lemma versionPart_unique:
  assumes "op \<in> set operatorKeys" and "op' \<in> set operatorKeys"
    and "prefix op s" and "prefix op' s" and "op \<noteq> op'"
    and "ms versionPart (drop (length op) s) \<noteq> []"
  shows "ms versionPart (drop (length op') s) = []"
proof -
  from assms(3,4) have "prefix op op' \<or> prefix op' op" by (rule prefix_same_cases)
  moreover have "length op \<noteq> length op'"
  proof
    assume "length op = length op'"
    with assms(3,4) have "op = op'" by (auto simp: prefix_def)
    with assms(5) show False by simp
  qed
  ultimately have "length op < length op' \<or> length op' < length op"
    by arith
  then show ?thesis
  proof
    assume "length op < length op'"
    from versionPart_after_longer [OF assms(2,3,4) this] assms(6) show ?thesis by simp
  next
    assume "length op' < length op"
    from versionPart_after_longer [OF assms(1,4,3) this] show ?thesis .
  qed
qed

lemma operatorKeys_nonempty: "operatorKeys \<noteq> []"
  by (simp add: operatorKeys_def)

lemma ms_constraintRegexp_order:
  assumes "distinct ops" and "set ops = set operatorKeys"
  shows "ms (constraintRegexp ops) s = ms (constraintRegexp operatorKeys) s"
proof -
  define g where "g = (\<lambda>op. if prefix op s
                  then map (\<lambda>(c2, r2). (c2 @ [(1::nat, op)], r2)) (ms versionPart (drop (length op) s))
                  else [])"
  have g_ne: "prefix a s \<and> ms versionPart (drop (length a) s) \<noteq> []" if "g a \<noteq> []" for a
    using that by (cases "prefix a s") (simp_all add: g_def)
  have g_e: "g b = []" if "ms versionPart (drop (length b) s) = []" for b
    using that by (simp add: g_def)
  have g_np: "g b = []" if "\<not> prefix b s" for b
    using that by (simp add: g_def)
  from assms(2) operatorKeys_nonempty have ne: "ops \<noteq> []"
    by (cases ops) simp_all
  have dk: "distinct operatorKeys" by (simp add: operatorKeys_def)
  have eq: "concat (map g xs) = concat (map g operatorKeys)"
    if d: "distinct xs" and st: "set xs = set operatorKeys" for xs
  proof (cases "\<exists>a\<in>set operatorKeys. g a \<noteq> []")
    case True
    then obtain a where a: "a \<in> set operatorKeys" "g a \<noteq> []" by blast
    from g_ne [OF a(2)] have pa: "prefix a s" and va: "ms versionPart (drop (length a) s) \<noteq> []"
      by simp_all
    have other: "g b = []" if b: "b \<in> set operatorKeys" "b \<noteq> a" for b
    proof (cases "prefix b s")
      case True
      from b(2) have "a \<noteq> b" by simp
      from versionPart_unique [OF a(1) b(1) pa True this va] show ?thesis by (rule g_e)
    next
      case False
      then show ?thesis by (rule g_np)
    qed
    have in_xs: "a \<in> set xs" using a(1) st by simp
    have other_xs: "\<And>b. b \<in> set xs \<Longrightarrow> b \<noteq> a \<Longrightarrow> g b = []"
      using other st by simp
    have "concat (map g xs) = g a"
      using d in_xs other_xs by (rule concat_map_single)
    moreover have "concat (map g operatorKeys) = g a"
      using dk a(1) other by (rule concat_map_single)
    ultimately show ?thesis by simp
  next
    case False
    then have all: "\<And>x. x \<in> set operatorKeys \<Longrightarrow> g x = []" by blast
    have e1: "concat (map g operatorKeys) = []" using all by (rule concat_map_empty)
    from all st have all': "\<And>x. x \<in> set xs \<Longrightarrow> g x = []" by simp
    have e2: "concat (map g xs) = []" using all' by (rule concat_map_empty)
    show ?thesis by (simp only: e1 e2)
  qed
  have "ms (constraintRegexp ops) s = concat (map g ops)"
    unfolding g_def by (rule ms_constraintRegexp [OF ne])
  moreover have "ms (constraintRegexp operatorKeys) s = concat (map g operatorKeys)"
    unfolding g_def by (rule ms_constraintRegexp [OF operatorKeys_nonempty])
  ultimately show ?thesis using eq [OF assms] by simp
qed

lemma findFirst_Nil:
  "findFirst r [] = (case ms r [] of [] \<Rightarrow> None | (c, rem) # _ \<Rightarrow> Some (c, [], rem))"
  by (subst findFirst.simps) (simp split: list.splits)

lemma findFirst_Cons:
  "findFirst r (x # t) =
     (case ms r (x # t) of
        [] \<Rightarrow> findFirst r t
      | (c, rem) # _ \<Rightarrow> Some (c, take (length (x # t) - length rem) (x # t), rem))"
  by (subst findFirst.simps) (simp split: list.splits)

lemma findFirst_cong:
  assumes "\<And>t. ms r t = ms r' t"
  shows "findFirst r s = findFirst r' s"
  by (induction s) (simp_all add: findFirst_Nil findFirst_Cons assms split: list.splits)

lemma FindAllString_unfold:
  "FindAllString r s =
     (case findFirst r s of
        None \<Rightarrow> []
      | Some (c, text, rem) \<Rightarrow>
          if length rem < length s then text # FindAllString r rem
          else text # (case s of [] \<Rightarrow> [] | _ # t \<Rightarrow> FindAllString r t))"
  by (rule FindAllString.simps)

lemma FindAllString_cong:
  assumes "\<And>t. ms r t = ms r' t"
  shows "FindAllString r s = FindAllString r' s"
proof (induction "length s" arbitrary: s rule: less_induct)
  case less
  have ff: "findFirst r s = findFirst r' s"
    using assms by (rule findFirst_cong)
  show ?case
  proof (cases "findFirst r' s")
    case None
    with ff show ?thesis
      by (simp add: FindAllString_unfold [of r s] FindAllString_unfold [of r' s])
  next
    case (Some a)
    obtain c tok rem where a: "a = (c, tok, rem)" by (cases a)
    show ?thesis
    proof (cases "length rem < length s")
      case True
      from less [OF True] have "FindAllString r rem = FindAllString r' rem" .
      with ff Some a True show ?thesis
        by (simp add: FindAllString_unfold [of r s] FindAllString_unfold [of r' s])
    next
      case False
      show ?thesis
      proof (cases s)
        case Nil
        with ff Some a False show ?thesis
          by (simp add: FindAllString_unfold [of r "[]"] FindAllString_unfold [of r' "[]"])
      next
        case (Cons x t)
        then have "length t < length s" by simp
        from less [OF this] have "FindAllString r t = FindAllString r' t" .
        with ff Some a False Cons show ?thesis
          by (simp add: FindAllString_unfold [of r "x # t"] FindAllString_unfold [of r' "x # t"])
      qed
    qed
  qed
qed

lemma FindStringSubmatch_cong:
  assumes "\<And>t. ms r t = ms r' t"
  shows "FindStringSubmatch r n s = FindStringSubmatch r' n s"
  by (simp add: FindStringSubmatch_def findFirst_cong [OF assms])

lemma lang_validConstraintRegexp_order:
  assumes "set ops = set operatorKeys"
  shows "lang (validConstraintRegexp ops) = lang (validConstraintRegexp operatorKeys)"
proof -
  from assms operatorKeys_nonempty have "ops \<noteq> []" by (cases ops) simp_all
  then have a: "lang (alts (map Lit ops)) = set ops" by (rule lang_alts_Lit)
  have b: "lang (alts (map Lit operatorKeys)) = set operatorKeys"
    using operatorKeys_nonempty by (rule lang_alts_Lit)
  from a b assms have "lang (alts (map Lit ops)) = lang (alts (map Lit operatorKeys))"
    by simp
  then show ?thesis
    by (simp only: validConstraintRegexp_def lang.simps)
qed

lemma MatchString_valid_order:
  assumes "set ops = set operatorKeys"
  shows "MatchString (validConstraintRegexp ops) s =
         MatchString (validConstraintRegexp operatorKeys) s"
  unfolding MatchString_lang lang_validConstraintRegexp_order [OF assms] ..

lemma newConstraint_order:
  assumes "distinct ops" and "set ops = set operatorKeys"
  shows "newConstraint V ops c = newConstraint V operatorKeys c"
  by (simp add: newConstraint_def
      FindStringSubmatch_cong [OF ms_constraintRegexp_order [OF assms]])

lemma newConstraints_each_order:
  assumes "distinct ops" and "set ops = set operatorKeys"
  shows "newConstraints_each V ops ss = newConstraints_each V operatorKeys ss"
  by (induction ss) (simp_all add: newConstraint_order [OF assms] split: sum.splits)

lemma parseSegment_order:
  assumes "distinct ops" and "set ops = set operatorKeys"
  shows "parseSegment V ops vv = parseSegment V operatorKeys vv"
  by (simp add: parseSegment_def MatchString_valid_order [OF assms(2)]
      FindAllString_cong [OF ms_constraintRegexp_order [OF assms]]
      newConstraints_each_order [OF assms])

lemma parseSegments_order:
  assumes "distinct ops" and "set ops = set operatorKeys"
  shows "parseSegments V ops vvs = parseSegments V operatorKeys vvs"
  by (induction vvs) (simp_all add: parseSegment_order [OF assms] split: sum.splits)

lemma NewConstraints_order:
  assumes "distinct ops" and "set ops = set operatorKeys"
  shows "NewConstraints V ops v opts = NewConstraints V operatorKeys v opts"
  by (simp add: NewConstraints_def parseSegments_order [OF assms])

lemma take_consumed: "s = p @ rem \<Longrightarrow> take (length s - length rem) s = p"
  by simp

lemma findFirst_Some:
  "findFirst r s = Some (c, tok, rem) \<Longrightarrow>
   \<exists>pre. s = pre @ tok @ rem \<and> (c, rem) \<in> set (ms r (tok @ rem))"
proof (induction s)
  case Nil
  then obtain xs where m: "ms r [] = (c, rem) # xs" and tok: "tok = []"
    by (auto simp: findFirst_Nil split: list.splits)
  from m have "(c, rem) \<in> set (ms r [])" by simp
  from ms_sound [OF this] have "rem = []" by simp
  with m tok show ?case by simp
next
  case (Cons x t)
  show ?case
  proof (cases "ms r (x # t)")
    case Nil
    with Cons.prems have "findFirst r t = Some (c, tok, rem)"
      by (simp add: findFirst_Cons)
    from Cons.IH [OF this] obtain pre where "t = pre @ tok @ rem"
      "(c, rem) \<in> set (ms r (tok @ rem))" by blast
    then have "x # t = (x # pre) @ tok @ rem \<and> (c, rem) \<in> set (ms r (tok @ rem))" by simp
    then show ?thesis by blast
  next
    case (Cons a xs)
    with Cons.prems have a: "a = (c, rem)"
      and tok: "tok = take (length (x # t) - length rem) (x # t)"
      by (auto simp: findFirst_Cons split: prod.splits)
    from Cons a have mem: "(c, rem) \<in> set (ms r (x # t))" by simp
    from ms_sound [OF mem] obtain p where p: "x # t = p @ rem" by blast
    from take_consumed [OF p] tok have "tok = p" by simp
    with p mem have "x # t = [] @ tok @ rem \<and> (c, rem) \<in> set (ms r (tok @ rem))" by simp
    then show ?thesis by blast
  qed
qed

lemma findFirst_lang:
  assumes "findFirst r s = Some (c, tok, rem)"
  shows "tok \<in> lang r"
proof -
  from findFirst_Some [OF assms] have "(c, rem) \<in> set (ms r (tok @ rem))" by blast
  from ms_sound [OF this] show ?thesis by auto
qed

lemma findFirst_length:
  assumes "findFirst r s = Some (c, tok, rem)"
  shows "length s = length tok + length rem \<or> length rem < length s"
  using findFirst_Some [OF assms] by auto

lemma ms_findFirst: "ms r s \<noteq> [] \<Longrightarrow> findFirst r s \<noteq> None"
  by (cases s) (auto simp: findFirst_Nil findFirst_Cons split: list.splits)

lemma findFirst_complete:
  assumes "y \<in> lang r"
  shows "findFirst r (x @ y @ z) \<noteq> None"
proof (induction x)
  case Nil
  from ms_complete [OF assms, of z] have "ms r (y @ z) \<noteq> []" by auto
  then show ?case by (simp add: ms_findFirst)
next
  case (Cons a x)
  then show ?case by (simp add: findFirst_Cons split: list.splits)
qed

lemma FindAllString_lang: "t \<in> set (FindAllString r s) \<Longrightarrow> t \<in> lang r"
proof (induction "length s" arbitrary: s rule: less_induct)
  case less
  show ?case
  proof (cases "findFirst r s")
    case None
    with less.prems show ?thesis by (simp add: FindAllString_unfold [of r s])
  next
    case (Some a)
    obtain c tok rem where a: "a = (c, tok, rem)" by (cases a)
    from Some a have tok: "tok \<in> lang r" by (simp add: findFirst_lang)
    show ?thesis
    proof (cases "length rem < length s")
      case True
      with less.prems Some a have "t = tok \<or> t \<in> set (FindAllString r rem)"
        by (simp add: FindAllString_unfold [of r s])
      with tok less.hyps [OF True] show ?thesis by blast
    next
      case False
      show ?thesis
      proof (cases s)
        case Nil
        with less.prems Some a False have "t = tok"
          by (simp add: FindAllString_unfold [of r "[]"])
        with tok show ?thesis by simp
      next
        case (Cons x s')
        with less.prems Some a False have "t = tok \<or> t \<in> set (FindAllString r s')"
          by (simp add: FindAllString_unfold [of r "x # s'"])
        moreover from Cons have "length s' < length s" by simp
        ultimately show ?thesis using tok less.hyps by blast
      qed
    qed
  qed
qed

lemma FindAllString_Nil: "FindAllString r s = [] \<Longrightarrow> findFirst r s = None"
  by (cases "findFirst r s") (auto simp: FindAllString_unfold [of r s] split: if_splits)

lemma newConstraint_lang:
  assumes "t \<in> lang (constraintRegexp ops)"
  shows "\<exists>con. newConstraint V ops t = Inr con"
proof (cases "t = []")
  case True
  then show ?thesis by (simp add: newConstraint_def)
next
  case False
  from findFirst_complete [OF assms, of "[]" "[]"]
  have "findFirst (constraintRegexp ops) t \<noteq> None" by simp
  then obtain m where "FindStringSubmatch (constraintRegexp ops) 7 t = Some m"
    by (auto simp: FindStringSubmatch_def)
  with False show ?thesis by (simp add: newConstraint_def Let_def)
qed

lemma newConstraints_each_ok:
  "(\<And>t. t \<in> set ss \<Longrightarrow> \<exists>con. newConstraint V ops t = Inr con) \<Longrightarrow>
   \<exists>cs. newConstraints_each V ops ss = Inr cs"
proof (induction ss)
  case Nil
  then show ?case by simp
next
  case (Cons t ss)
  from Cons.prems [of t] obtain con where "newConstraint V ops t = Inr con" by auto
  moreover from Cons.IH Cons.prems obtain cs where "newConstraints_each V ops ss = Inr cs"
    by auto
  ultimately show ?case by simp
qed

lemma star_space_chars:
  "w \<in> star (lang space) \<Longrightarrow> set w \<subseteq> set [CHR 0x09, CHR 0x0A, CHR 0x0C, CHR 0x0D, CHR 0x20]"
  by (induction rule: star.induct) (auto simp: space_def)

lemma lang_cvRegex_groups: "lang (cvRegex k) = lang (cvRegex 3)"
  by (simp add: cvRegex_def Opt_def)

lemma pair_has_token:
  assumes "p \<in> lang (Grp 1
       (Seq (Star space)
       (Seq (Grp 2 (alts (map Lit ops)))
       (Seq (Star space)
       (Seq (Grp 3 (cvRegex 4))
       (Seq (Star space) (Opt (Lit '','')))))))) "
  shows "\<exists>x y z. p = x @ y @ z \<and> y \<in> lang (constraintRegexp ops)"
proof -
  from assms obtain a op b cv d where
    p: "p = a @ op @ b @ cv @ d" and op: "op \<in> lang (alts (map Lit ops))"
    and b: "b \<in> star (lang space)" and cv: "cv \<in> lang (cvRegex 4)"
    by (simp only: lang.simps) blast
  from cv have "cv \<in> lang (cvRegex 3)" by (simp only: lang_cvRegex_groups [of 4])
  with op b have "op @ b @ cv \<in> lang (constraintRegexp ops)"
    unfolding constraintRegexp_def by (simp only: lang.simps) blast
  moreover from p have "p = a @ (op @ b @ cv) @ d" by simp
  ultimately show ?thesis by blast
qed

lemma valid_tokenless:
  assumes "MatchString (validConstraintRegexp ops) s"
    and "findFirst (constraintRegexp ops) s = None"
  shows "set s \<subseteq> set [CHR 0x09, CHR 0x0A, CHR 0x0C, CHR 0x0D, CHR 0x20]"
proof -
  let ?P = "Grp 1
       (Seq (Star space)
       (Seq (Grp 2 (alts (map Lit ops)))
       (Seq (Star space)
       (Seq (Grp 3 (cvRegex 4))
       (Seq (Star space) (Opt (Lit '','')))))))"
  from assms(1) have "s \<in> lang (validConstraintRegexp ops)" by (simp only: MatchString_lang)
  then obtain w0 ps w1 where s: "s = w0 @ ps @ w1" and w0: "w0 \<in> star (lang space)"
    and ps: "ps \<in> star (lang ?P)" and w1: "w1 \<in> star (lang space)"
    unfolding validConstraintRegexp_def by (simp only: lang.simps) blast
  have "ps = []"
  proof (rule ccontr)
    assume "ps \<noteq> []"
    with ps obtain u v where u: "u \<in> lang ?P" and "ps = u @ v"
      by (cases rule: star.cases) auto
    from pair_has_token [OF u] obtain x y z where "u = x @ y @ z"
      and y: "y \<in> lang (constraintRegexp ops)" by blast
    with s \<open>ps = u @ v\<close> have "s = (w0 @ x) @ y @ (z @ v @ w1)" by simp
    with findFirst_complete [OF y, of "w0 @ x" "z @ v @ w1"] assms(2) show False by simp
  qed
  with s star_space_chars [OF w0] star_space_chars [OF w1] show ?thesis by auto
qed

lemma dropWhile_all: "\<forall>x\<in>set s. P x \<Longrightarrow> dropWhile P s = []"
  by (induction s) auto

lemma TrimSpace_spaces:
  assumes "set s \<subseteq> set [CHR 0x09, CHR 0x0A, CHR 0x0C, CHR 0x0D, CHR 0x20]"
  shows "TrimSpace s = []"
proof -
  from assms have "\<forall>c\<in>set s. isSpace c" by (auto simp: isSpace_def)
  then have d: "dropWhile isSpace s = []" by (rule dropWhile_all)
  show ?thesis unfolding TrimSpace_def d by simp
qed

lemma parseSegment_valid:
  assumes "MatchString (validConstraintRegexp ops) vv"
  shows "\<exists>cs. parseSegment V ops vv = Inr cs"
proof (cases "FindAllString (constraintRegexp ops) vv = []")
  case True
  from FindAllString_Nil [OF True] have "findFirst (constraintRegexp ops) vv = None" .
  from TrimSpace_spaces [OF valid_tokenless [OF assms this]] have "TrimSpace vv = []" .
  with assms True show ?thesis by (simp add: parseSegment_def newConstraint_def)
next
  case False
  have "\<exists>cs. newConstraints_each V ops (FindAllString (constraintRegexp ops) vv) = Inr cs"
    by (rule newConstraints_each_ok) (rule newConstraint_lang, rule FindAllString_lang)
  with assms False show ?thesis by (simp add: parseSegment_def)
qed

lemma parseSegment_invalid:
  "\<not> MatchString (validConstraintRegexp ops) vv \<Longrightarrow>
   parseSegment V ops vv = Inl (''improper constraint: '' @ vv)"
  by (simp add: parseSegment_def)

lemma parseSegments_first_invalid:
  "find (\<lambda>vv. \<not> MatchString (validConstraintRegexp ops) vv) vvs = Some bad \<Longrightarrow>
   parseSegments V ops vvs = Inl (''improper constraint: '' @ bad)"
proof (induction vvs)
  case Nil
  then show ?case by simp
next
  case (Cons vv vvs)
  show ?case
  proof (cases "MatchString (validConstraintRegexp ops) vv")
    case True
    from parseSegment_valid [OF True] obtain cs where "parseSegment V ops vv = Inr cs" by blast
    moreover from True Cons.prems Cons.IH
    have "parseSegments V ops vvs = Inl (''improper constraint: '' @ bad)" by simp
    ultimately show ?thesis by simp
  next
    case False
    with Cons.prems have "bad = vv" by simp
    with False show ?thesis by (simp add: parseSegment_invalid)
  qed
qed

lemma parseSegments_all_valid:
  "find (\<lambda>vv. \<not> MatchString (validConstraintRegexp ops) vv) vvs = None \<Longrightarrow>
   \<exists>css. parseSegments V ops vvs = Inr css"
proof (induction vvs)
  case Nil
  then show ?case by simp
next
  case (Cons vv vvs)
  from Cons.prems have v: "MatchString (validConstraintRegexp ops) vv"
    and rest: "find (\<lambda>vv. \<not> MatchString (validConstraintRegexp ops) vv) vvs = None"
    by (auto split: if_splits)
  from parseSegment_valid [OF v] obtain cs where "parseSegment V ops vv = Inr cs" by blast
  moreover from Cons.IH [OF rest] obtain css where "parseSegments V ops vvs = Inr css" by blast
  ultimately show ?case by simp
qed

section \<open>Evaluating the operator table and the reference Version\<close>

lemma operatorAt_simps:
  "operatorAt V [] = Some (constraintEqual V)"
  "operatorAt V ''='' = Some (constraintEqual V)"
  "operatorAt V ''=='' = Some (constraintEqual V)"
  "operatorAt V ''>'' = Some (constraintGreaterThan V)"
  "operatorAt V ''<'' = Some (constraintLessThan V)"
  "operatorAt V ''>='' = Some (constraintGreaterThanEqual V)"
  "operatorAt V ''=>'' = Some (constraintGreaterThanEqual V)"
  "operatorAt V ''<='' = Some (constraintLessThanEqual V)"
  "operatorAt V ''=<'' = Some (constraintLessThanEqual V)"
  "operatorAt V ''~'' = Some (constraintTilde V)"
  "operatorAt V ''^'' = Some (constraintCaret V)"
  by (simp_all add: operatorAt_def constraintOperators_def)

lemma semverOps_simps:
  "Equal semverOps v w = (sem_Compare v w = 1)"
  "GreaterThan semverOps v w = (sem_Compare v w = 2)"
  "LessThan semverOps v w = (sem_Compare v w = 0)"
  "GreaterThanOrEqual semverOps v w = (sem_Compare v w \<noteq> 0)"
  "LessThanOrEqual semverOps v w = (sem_Compare v w \<noteq> 2)"
  "IsPreRelease semverOps v = (\<not> isNull (preRelease v))"
  "IsAny semverOps v = (major v = Wildcard)"
  "Release semverOps v = v\<lparr>preRelease := []\<rparr>"
  "TildeBump semverOps = sem_TildeBump"
  "CaretBump semverOps = sem_CaretBump"
  "New semverOps ma mi pa pre build =
     \<lparr>major = sem_Part ma, minor = sem_Part mi, patch = sem_Part pa, preRelease = sem_Parts pre\<rparr>"
  by (simp_all add: semverOps_def)

lemmas sem_eval = semverOps_simps sem_Compare_def sv_def sem_part_def isNull_def
  sem_TildeBump_def sem_CaretBump_def release_version_def

section \<open>Evaluation: disjunction of conjunctions\<close>

lemma check_defined:
  "operator c \<noteq> None \<Longrightarrow> \<exists>b. check V c v cfg = Some b"
  by (auto simp: check_def preCheck_def)

lemma andCheck_all:
  "\<forall>c\<in>set cs. operator c \<noteq> None \<Longrightarrow>
   andCheck V v cs cfg = Some (\<forall>c\<in>set cs. check V c v cfg = Some True)"
proof (induction cs)
  case Nil
  then show ?case by simp
next
  case (Cons c cs)
  from Cons.prems have "operator c \<noteq> None" by simp
  then have "\<exists>b. check V c v cfg = Some b"
    by (rule check_defined)
  then obtain b where b: "check V c v cfg = Some b" ..
  from Cons.prems have rest: "\<forall>c\<in>set cs. operator c \<noteq> None" by simp
  show ?case
    using b Cons.IH [OF rest] by (cases b) simp_all
qed

lemma Check_loop_ex:
  "\<forall>alt\<in>set css. \<forall>c\<in>set alt. operator c \<noteq> None \<Longrightarrow>
   Check_loop V css cfg v =
     Some (\<exists>alt\<in>set css. \<forall>c\<in>set alt. check V c v cfg = Some True)"
proof (induction css)
  case Nil
  then show ?case by simp
next
  case (Cons alt css)
  from Cons.prems have alt: "\<forall>c\<in>set alt. operator c \<noteq> None" by simp
  from Cons.prems have rest: "\<forall>alt\<in>set css. \<forall>c\<in>set alt. operator c \<noteq> None" by simp
  show ?case
  proof (cases "\<forall>c\<in>set alt. check V c v cfg = Some True")
    case True
    then show ?thesis
      using andCheck_all [OF alt, of V v cfg] by auto
  next
    case False
    then show ?thesis
      using andCheck_all [OF alt, of V v cfg] Cons.IH [OF rest] by auto
  qed
qed

text \<open>
  C1. A range expression whose terms all carry an operator (every range expression that
  \<open>NewConstraints\<close> builds, and the zero value) is satisfied by a version exactly when
  one of its alternatives has all its terms satisfied, each term evaluated through the
  pre-release gate; with no alternative the answer is false. \<open>Check\<close> does not panic
  on such a range expression.
\<close>

theorem Check_or_of_ands:
  assumes "\<forall>alt\<in>set (constraints cs). \<forall>c\<in>set alt. operator c \<noteq> None"
  shows "Check V cs v =
           Some (\<exists>alt\<in>set (constraints cs). \<forall>c\<in>set alt. check V c v (conf cs) = Some True)
         \<and> (constraints cs = [] \<longrightarrow> Check V cs v = Some False)"
  using Check_loop_ex [OF assms] by (simp add: Check_def)

theorem Check_or_of_ands_witness:
  "Check semverOps
        \<lparr>constraints =
           [[\<lparr>version = sv 1 0 0 [], operator = operatorAt semverOps ''>='', original = ''>=1.0.0''\<rparr>,
             \<lparr>version = sv 2 0 0 [], operator = operatorAt semverOps ''<'', original = ''<2.0.0''\<rparr>],
            [\<lparr>version = sv 3 0 0 [], operator = operatorAt semverOps [], original = ''3.0.0''\<rparr>]],
         conf = \<lparr>includePreRelease = False\<rparr>\<rparr> (sv 1 5 0 []) = Some True
   \<and> Check semverOps
        \<lparr>constraints =
           [[\<lparr>version = sv 1 0 0 [], operator = operatorAt semverOps ''>='', original = ''>=1.0.0''\<rparr>,
             \<lparr>version = sv 2 0 0 [], operator = operatorAt semverOps ''<'', original = ''<2.0.0''\<rparr>],
            [\<lparr>version = sv 3 0 0 [], operator = operatorAt semverOps [], original = ''3.0.0''\<rparr>]],
         conf = \<lparr>includePreRelease = False\<rparr>\<rparr> (sv 2 5 0 []) = Some False"
proof -
  let ?cs = "\<lparr>constraints =
           [[\<lparr>version = sv 1 0 0 [], operator = operatorAt semverOps ''>='', original = ''>=1.0.0''\<rparr>,
             \<lparr>version = sv 2 0 0 [], operator = operatorAt semverOps ''<'', original = ''<2.0.0''\<rparr>],
            [\<lparr>version = sv 3 0 0 [], operator = operatorAt semverOps [], original = ''3.0.0''\<rparr>]],
         conf = \<lparr>includePreRelease = False\<rparr>\<rparr>"
  have h: "\<forall>alt\<in>set (constraints ?cs). \<forall>c\<in>set alt. operator c \<noteq> None"
    by (simp add: operatorAt_simps)
  show ?thesis
    using Check_or_of_ands [OF h, of semverOps "sv 1 5 0 []"]
      Check_or_of_ands [OF h, of semverOps "sv 2 5 0 []"]
    by (simp add: check_def preCheck_def operatorAt_simps sem_eval
        constraintGreaterThanEqual_def constraintLessThan_def constraintEqual_def)
qed

section \<open>The pre-release gate\<close>

text \<open>
  C2. For every term, candidate and configuration: (1) when pre-releases are not included
  and the candidate is a pre-release while the bound is not, the term is not satisfied;
  (2) otherwise, when the bound is a pre-release and the universal wildcard, the term is
  not satisfied; (3) otherwise the result is the term's operator function applied to the
  candidate, the bound and the configuration.
\<close>

theorem check_gate:
  "(\<not> includePreRelease cfg \<and> IsPreRelease V v \<and> \<not> IsPreRelease V (version c)
      \<longrightarrow> check V c v cfg = Some False)
   \<and> (\<not> (\<not> includePreRelease cfg \<and> IsPreRelease V v \<and> \<not> IsPreRelease V (version c))
        \<and> IsPreRelease V (version c) \<and> IsAny V (version c)
      \<longrightarrow> check V c v cfg = Some False)
   \<and> (\<not> (\<not> includePreRelease cfg \<and> IsPreRelease V v \<and> \<not> IsPreRelease V (version c))
        \<and> \<not> (IsPreRelease V (version c) \<and> IsAny V (version c))
      \<longrightarrow> check V c v cfg = map_option (\<lambda>f. f v (version c) cfg) (operator c))"
  by (cases "operator c") (simp_all add: check_def preCheck_def)

theorem check_gate_witness:
  "(\<not> includePreRelease \<lparr>includePreRelease = False\<rparr>
      \<and> IsPreRelease semverOps (sv 1 2 3 [''alpha''])
      \<and> \<not> IsPreRelease semverOps (sv 1 2 0 [])
      \<and> check semverOps
           \<lparr>version = sv 1 2 0 [], operator = operatorAt semverOps ''>'', original = ''>1.2.0''\<rparr>
           (sv 1 2 3 [''alpha'']) \<lparr>includePreRelease = False\<rparr> = Some False)
   \<and> (IsPreRelease semverOps \<lparr>major = Wildcard, minor = Wildcard, patch = Wildcard, preRelease = [Text ''alpha'']\<rparr>
      \<and> IsAny semverOps \<lparr>major = Wildcard, minor = Wildcard, patch = Wildcard, preRelease = [Text ''alpha'']\<rparr>
      \<and> check semverOps
           \<lparr>version = \<lparr>major = Wildcard, minor = Wildcard, patch = Wildcard, preRelease = [Text ''alpha'']\<rparr>,
            operator = operatorAt semverOps [], original = ''*-alpha''\<rparr>
           (sv 1 2 3 [''alpha'']) \<lparr>includePreRelease = False\<rparr> = Some False)
   \<and> (includePreRelease \<lparr>includePreRelease = True\<rparr>
      \<and> \<not> IsAny semverOps (sv 1 2 0 [])
      \<and> check semverOps
           \<lparr>version = sv 1 2 0 [], operator = operatorAt semverOps ''>'', original = ''>1.2.0''\<rparr>
           (sv 1 2 3 [''alpha'']) \<lparr>includePreRelease = True\<rparr>
         = Some (constraintGreaterThan semverOps (sv 1 2 3 [''alpha'']) (sv 1 2 0 [])
                   \<lparr>includePreRelease = True\<rparr>))"
  using
    check_gate [of "\<lparr>includePreRelease = False\<rparr>" semverOps "sv 1 2 3 [''alpha'']"
      "\<lparr>version = sv 1 2 0 [], operator = operatorAt semverOps ''>'', original = ''>1.2.0''\<rparr>"]
    check_gate [of "\<lparr>includePreRelease = False\<rparr>" semverOps "sv 1 2 3 [''alpha'']"
      "\<lparr>version = \<lparr>major = Wildcard, minor = Wildcard, patch = Wildcard, preRelease = [Text ''alpha'']\<rparr>,
        operator = operatorAt semverOps [], original = ''*-alpha''\<rparr>"]
    check_gate [of "\<lparr>includePreRelease = True\<rparr>" semverOps "sv 1 2 3 [''alpha'']"
      "\<lparr>version = sv 1 2 0 [], operator = operatorAt semverOps ''>'', original = ''>1.2.0''\<rparr>"]
  by (simp add: sem_eval operatorAt_simps)

section \<open>Operator predicates\<close>





section \<open>Errors of parsing\<close>

text \<open>
  C6. When a segment of the input (the pieces between \<open>||\<close>) fails the validator,
  \<open>NewConstraints\<close> returns the zero range expression together with the error
  \<open>improper constraint: \<close> followed by that segment as it stands; the segment
  reported is the first one that fails. No term of an earlier, valid segment can fail to
  be built, so no other error and no partial range expression comes back.
\<close>

theorem NewConstraints_improper:
  assumes "find (\<lambda>vv. \<not> MatchString (validConstraintRegexp ops) vv) (Split v ''||'') = Some bad"
  shows "NewConstraints V ops v opts = (zeroConstraints, Some (''improper constraint: '' @ bad))"
  using parseSegments_first_invalid [OF assms, of V] by (simp add: NewConstraints_def)

end
